theory Spec2Isabelle
  imports Complex_Main "HOL-Library.Word"
begin

unbundle bit_operations_syntax

section \<open>Ketama consistent hashing (src/ketama.c)\<close>

text \<open>
  A shallow embedding of \<^verbatim>\<open>ketama.c\<close>: the server list, the construction of the
  continuum and the lookup. Conventions:
  \<^item> \<^verbatim>\<open>unsigned int\<close> is \<open>32 word\<close>, \<^verbatim>\<open>unsigned long\<close> is \<open>64 word\<close> (LP64),
    \<^verbatim>\<open>unsigned char\<close> is \<open>8 word\<close>; \<^verbatim>\<open>int\<close> is \<open>int\<close>, and an \<^verbatim>\<open>int\<close> sum that leaves
    the 32-bit range is the result \<open>SignedOverflow\<close>;
  \<^item> \<^verbatim>\<open>float\<close> and \<^verbatim>\<open>double\<close> are IEEE 754 binary32 and binary64 with round to
    nearest even, every operation rounded to its own type;
  \<^item> \<^verbatim>\<open>assert\<close> is active: a failed assertion is the result \<open>AssertionFailed\<close>;
  \<^item> a heap block is the list of the cells written to it so far, and a string buffer is
    the string it holds, up to its terminating NUL. The byte sizes of the buffers
    (\<^verbatim>\<open>char addr[22]\<close>, \<^verbatim>\<open>char ss[30]\<close>, and the size handed to \<^verbatim>\<open>Alloc_alloc\<close>,
    which is that of \<open>numservers\<close> cells) are not part of the model. So the model is
    that of the source for an \<^verbatim>\<open>addr:port\<close> of at most 21 characters and a string
    \<^verbatim>\<open>addr:port-k\<close> of at most 29; a property of the strings that construction stores
    or hashes carries these two bounds as hypotheses. The bytes of a buffer after the
    terminating NUL, which \<^verbatim>\<open>memcpy\<close> of line 206 copies with the string, and the
    memory past the end of a block are not represented;
  \<^item> the MD5 functions of \<^verbatim>\<open>md5.h\<close> are a parameter \<open>md\<close>, from a byte string to the
    sixteen bytes of its digest.
\<close>

subsection \<open>Data\<close>

record mcs =
  point :: "32 word"
  ip :: string

text \<open>The field \<^verbatim>\<open>memory\<close> of \<^verbatim>\<open>serverinfo\<close> is \<open>info_memory\<close> here, since
  \<^verbatim>\<open>struct _Ketama\<close> has a field of the same name.\<close>

record serverinfo =
  addr :: string
  info_memory :: "64 word"

record Ketama =
  numpoints :: int
  numservers :: "32 word"
  memory :: "64 word"
  continuum :: "mcs list option"
  servers :: "serverinfo list"

datatype error =
    AssertionFailed
  | FloatToUnsignedUndefined
  | SignedOverflow
  | OutOfBounds

type_synonym digest = "nat \<Rightarrow> 8 word"

subsection \<open>printf's \<open>%d\<close>\<close>

fun dec :: "nat \<Rightarrow> string" where
  "dec n = (if n < 10 then [''0123456789'' ! n]
            else dec (n div 10) @ [''0123456789'' ! (n mod 10)])"

declare dec.simps [simp del]

definition fmt_d :: "int \<Rightarrow> string" where
  "fmt_d i = (if i < 0 then CHR ''-'' # dec (nat (- i)) else dec (nat i))"

subsection \<open>Single and double precision\<close>

text \<open>
  Only finite values that are not negative occur. Such a value is a fraction
  \<open>(a, b)\<close>, read \<open>a / b\<close>, with \<open>b > 0\<close>. \<open>round_to p\<close> rounds a fraction to the
  nearest value with \<open>p\<close> significant bits, ties to the even significand. The operands
  here are below \<open>2 ^ 64\<close> and quotients are at least \<open>2 ^ - 64\<close>, inside the exponent
  range of both formats, so the exponent is not bounded.
\<close>

type_synonym frac = "nat \<times> nat"

fun bitlen :: "nat \<Rightarrow> nat" where
  "bitlen n = (if n = 0 then 0 else Suc (bitlen (n div 2)))"

declare bitlen.simps [simp del]

definition rne :: "nat \<Rightarrow> nat \<Rightarrow> nat" where
  "rne a b =
     (let q = a div b; r = a mod b
      in if 2 * r < b then q
         else if b < 2 * r then q + 1
         else if even q then q else q + 1)"

definition scale2 :: "int \<Rightarrow> frac \<Rightarrow> frac" where
  "scale2 s x = (if 0 \<le> s then (fst x * 2 ^ nat s, snd x) else (fst x, snd x * 2 ^ nat (- s)))"

definition frac_le :: "frac \<Rightarrow> frac \<Rightarrow> bool" where
  "frac_le x y \<longleftrightarrow> fst x * snd y \<le> fst y * snd x"

definition binexp :: "frac \<Rightarrow> int" where
  "binexp x =
     (let e = int (bitlen (fst x)) - int (bitlen (snd x))
      in if frac_le (scale2 e (1, 1)) x then e else e - 1)"

definition round_to :: "nat \<Rightarrow> frac \<Rightarrow> frac" where
  "round_to p x =
     (if fst x = 0 then (0, 1)
      else let s = int p - 1 - binexp x;
               y = scale2 s x
           in scale2 (- s) (rne (fst y) (snd y), 1))"

definition to_float :: "frac \<Rightarrow> frac" where
  "to_float = round_to 24"

definition to_double :: "frac \<Rightarrow> frac" where
  "to_double = round_to 53"

definition frac_mult :: "frac \<Rightarrow> frac \<Rightarrow> frac" where
  "frac_mult x y = (fst x * fst y, snd x * snd y)"

definition frac_div :: "frac \<Rightarrow> frac \<Rightarrow> frac" where
  "frac_div x y = (fst x * snd y, snd x * fst y)"

definition floorf :: "frac \<Rightarrow> nat" where
  "floorf x = fst x div snd x"

text \<open>
  Lines 180 and 181:
  \<^verbatim>\<open>float pct = (float)sinfo->memory / (float)ketama->memory;\<close>
  \<^verbatim>\<open>unsigned int ks = floorf( pct * 40.0 * (float)ketama->numservers );\<close>
  The quotient is single precision; \<^verbatim>\<open>40.0\<close> makes both products double precision;
  the argument of \<^verbatim>\<open>floorf\<close> is converted to single precision. A zero divisor gives a
  NaN or an infinity, which stays one up to the conversion to \<^verbatim>\<open>unsigned int\<close>; that
  conversion is undefined for it, as for a value of \<open>2 ^ 32\<close> or more.
\<close>

definition pct_of :: "64 word \<Rightarrow> 64 word \<Rightarrow> frac option" where
  "pct_of m tot =
     (let x = to_float (unat m, 1); y = to_float (unat tot, 1)
      in if fst y = 0 then None else Some (to_float (frac_div x y)))"

definition hash_rounds :: "64 word \<Rightarrow> 64 word \<Rightarrow> 32 word \<Rightarrow> error + 32 word" where
  "hash_rounds m tot n =
     (case pct_of m tot of
        None \<Rightarrow> Inl FloatToUnsignedUndefined
      | Some pct \<Rightarrow>
          let a = to_double (frac_mult pct (40, 1));
              b = to_double (frac_mult a (to_float (unat n, 1)));
              r = floorf (to_float b)
          in if r < 2 ^ 32 then Inr (word_of_nat r) else Inl FloatToUnsignedUndefined)"

subsection \<open>The server list\<close>

definition Ketama_new :: Ketama where
  "Ketama_new = \<lparr>numpoints = 0, numservers = 0, memory = 0, continuum = None, servers = []\<rparr>"

text \<open>Modelled from the spec: \<^verbatim>\<open>list_add\<close> of \<^verbatim>\<open>list.h\<close>, which is not among the
  sources. The spec's \<open>addServer\<close> appends a Server to an insertion-ordered collection,
  which construction then walks in iteration order.\<close>

definition list_add :: "serverinfo \<Rightarrow> serverinfo list \<Rightarrow> serverinfo list" where
  "list_add info xs = xs @ [info]"

text \<open>Lines 85 to 93. \<^verbatim>\<open>sprintf\<close> writes \<^verbatim>\<open>addr:port\<close> and a NUL into
  \<^verbatim>\<open>char addr[22]\<close>: the field \<open>addr\<close> below is the string that the buffer holds when
  \<^verbatim>\<open>addr:port\<close> has at most 21 characters. For a longer one \<^verbatim>\<open>sprintf\<close> writes past
  the buffer, and the definition does not say what the source does.\<close>

definition Ketama_add_server :: "Ketama \<Rightarrow> string \<Rightarrow> int \<Rightarrow> 64 word \<Rightarrow> Ketama" where
  "Ketama_add_server ketama a port weight =
     (let info = \<lparr>addr = a @ '':'' @ fmt_d port, info_memory = weight\<rparr>
      in ketama\<lparr>servers := list_add info (servers ketama),
                numservers := numservers ketama + 1,
                memory := memory ketama + weight\<rparr>)"

subsection \<open>Hashing\<close>

definition ketama_md5_digest :: "(string \<Rightarrow> digest) \<Rightarrow> string \<Rightarrow> digest" where
  "ketama_md5_digest md inString = md inString"

definition ketama_hashi :: "(string \<Rightarrow> digest) \<Rightarrow> string \<Rightarrow> 32 word" where
  "ketama_hashi md inString =
     (let digest = ketama_md5_digest md inString
      in push_bit 24 (ucast (digest 3)) OR push_bit 16 (ucast (digest 2))
         OR push_bit 8 (ucast (digest 1)) OR ucast (digest 0))"

subsection \<open>Lookup\<close>

definition INT_MAX :: int where
  "INT_MAX = 2147483647"

definition INT_MIN :: int where
  "INT_MIN = - 2147483648"

text \<open>C's \<^verbatim>\<open>/\<close> on \<^verbatim>\<open>int\<close> truncates towards zero.\<close>

definition c_div :: "int \<Rightarrow> int \<Rightarrow> int" where
  "c_div a b = sgn a * sgn b * (\<bar>a\<bar> div \<bar>b\<bar>)"

text \<open>\<^verbatim>\<open>(*mcsarr)[i].point\<close>: a read of cell \<open>i\<close> of the continuum.\<close>

definition read_point :: "Ketama \<Rightarrow> int \<Rightarrow> error + 32 word" where
  "read_point ketama i =
     (case continuum ketama of
        None \<Rightarrow> Inl OutOfBounds
      | Some arr \<Rightarrow>
          if 0 \<le> i \<and> i < int (length arr) then Inr (point (arr ! nat i)) else Inl OutOfBounds)"

text \<open>
  One pass through the body of \<^verbatim>\<open>while ( 1 )\<close>, lines 140 to 157: it returns, or it goes
  round again with new \<open>lowp\<close> and \<open>highp\<close>. The value returned is the index of the cell
  whose address the C function returns.
\<close>

datatype iteration = Return "error + nat" | Again int int

definition loop_body :: "Ketama \<Rightarrow> 32 word \<Rightarrow> int \<Rightarrow> int \<Rightarrow> iteration" where
  "loop_body ketama h lowp highp =
     (if lowp + highp < INT_MIN \<or> INT_MAX < lowp + highp then Return (Inl SignedOverflow)
      else
        let midp = c_div (lowp + highp) 2
        in if midp = numpoints ketama then Return (Inr 0)
           else
             case read_point ketama midp of
               Inl e \<Rightarrow> Return (Inl e)
             | Inr midval \<Rightarrow>
                 (case (if midp = 0 then Inr 0 else read_point ketama (midp - 1)) of
                    Inl e \<Rightarrow> Return (Inl e)
                  | Inr midval1 \<Rightarrow>
                      if h \<le> midval \<and> midval1 < h then Return (Inr (nat midp))
                      else
                        let lowp' = (if midval < h then midp + 1 else lowp);
                            highp' = (if midval < h then highp else midp - 1)
                        in if highp' < lowp' then Return (Inr 0) else Again lowp' highp'))"

function search :: "Ketama \<Rightarrow> 32 word \<Rightarrow> int \<Rightarrow> int \<Rightarrow> (error + nat) \<times> Ketama" where
  "search ketama h lowp highp =
     (case loop_body ketama h lowp highp of
        Return r \<Rightarrow> (r, ketama)
      | Again lowp' highp' \<Rightarrow> search ketama h lowp' highp')"
  by pat_completeness auto
termination
proof (relation "measure (\<lambda>(ketama, h, lowp, highp). nat (highp - lowp))")
  fix ketama :: Ketama and h :: "32 word" and lowp highp lowp' highp' :: int
  assume a: "loop_body ketama h lowp highp = Again lowp' highp'"
  let ?m = "c_div (lowp + highp) 2"
  have "2 * ?m \<le> lowp + highp + 1 \<and> lowp + highp - 1 \<le> 2 * ?m"
    by (cases "0 \<le> lowp + highp") (auto simp: c_div_def sgn_if)
  moreover from a
  have "(lowp' = ?m + 1 \<and> highp' = highp \<or> lowp' = lowp \<and> highp' = ?m - 1) \<and> lowp' \<le> highp'"
    by (auto simp: loop_body_def Let_def split: if_splits sum.splits)
  ultimately
  show "((ketama, h, lowp', highp'), (ketama, h, lowp, highp))
          \<in> measure (\<lambda>(ketama, h, lowp, highp). nat (highp - lowp))"
    by auto
qed simp

declare search.simps [simp del]

text \<open>Lines 128 to 159. The state is handed back with the result, so that what the call
  does to it is part of the model.\<close>

definition Ketama_get_server ::
  "(string \<Rightarrow> digest) \<Rightarrow> Ketama \<Rightarrow> string \<Rightarrow> (error + nat) \<times> Ketama" where
  "Ketama_get_server md ketama key =
     (let h = ketama_hashi md key;
          highp = numpoints ketama;
          lowp = 0
      in search ketama h lowp highp)"

subsection \<open>Construction\<close>

text \<open>\<^verbatim>\<open>ketama->continuum[cont] = c\<close>. The cells are written at the indices
  \<open>0, 1, 2, \<dots>\<close> in turn, so an index that is not yet a cell is the next one.\<close>

definition store :: "mcs list \<Rightarrow> nat \<Rightarrow> mcs \<Rightarrow> mcs list" where
  "store arr i c = (if i < length arr then arr[i := c] else arr @ [c])"

text \<open>Lines 201 to 204, the value assigned to \<^verbatim>\<open>continuum[cont].point\<close>.\<close>

definition continuum_point :: "digest \<Rightarrow> int \<Rightarrow> 32 word" where
  "continuum_point digest h =
     push_bit 24 (ucast (digest (nat (3 + h * 4)))) OR push_bit 16 (ucast (digest (nat (2 + h * 4))))
     OR push_bit 8 (ucast (digest (nat (1 + h * 4)))) OR ucast (digest (nat (h * 4)))"

text \<open>\<^verbatim>\<open>for( h = 0; h < 4; h++ )\<close>, lines 199 to 208.\<close>

function h_loop :: "digest \<Rightarrow> string \<Rightarrow> mcs list \<Rightarrow> 32 word \<Rightarrow> int \<Rightarrow> mcs list \<times> 32 word" where
  "h_loop digest a arr cont h =
     (if h < 4
      then h_loop digest a
             (store arr (unat cont) \<lparr>point = continuum_point digest h, ip = a\<rparr>) (cont + 1) (h + 1)
      else (arr, cont))"
  by pat_completeness auto
termination
  by (relation "measure (\<lambda>(digest, a, arr, cont, h). nat (4 - h))") auto

declare h_loop.simps [simp del]

text \<open>\<^verbatim>\<open>for( k = 0; k < ks; k++ )\<close>, lines 187 to 209. \<^verbatim>\<open>%d\<close> prints the
  \<^verbatim>\<open>unsigned int k\<close> as an \<^verbatim>\<open>int\<close>. \<open>ss\<close> is the string that \<^verbatim>\<open>char ss[30]\<close> holds
  when \<^verbatim>\<open>addr-k\<close> has at most 29 characters, and the \<open>ip\<close> of a cell is the string
  that the 22 bytes copied by \<^verbatim>\<open>memcpy\<close> hold when \<open>a\<close> has at most 21.\<close>

function k_loop ::
  "(string \<Rightarrow> digest) \<Rightarrow> string \<Rightarrow> 32 word \<Rightarrow> mcs list \<Rightarrow> 32 word \<Rightarrow> 32 word \<Rightarrow> mcs list \<times> 32 word" where
  "k_loop md a ks arr cont k =
     (if k < ks
      then let ss = a @ ''-'' @ fmt_d (sint k);
               digest = ketama_md5_digest md ss;
               (arr', cont') = h_loop digest a arr cont 0
           in k_loop md a ks arr' cont' (k + 1)
      else (arr, cont))"
  by pat_completeness auto
termination
proof (relation "measure (\<lambda>(md, a, ks, arr, cont, k). unat ks - unat k)")
  fix md :: "string \<Rightarrow> digest" and a :: string and ks k cont :: "32 word" and arr :: "mcs list"
    and ss :: string and digest :: "nat \<Rightarrow> 8 word" and x :: "mcs list \<times> 32 word"
    and arr' :: "mcs list" and cont' :: "32 word"
  assume "k < ks"
  then have lt: "unat k < unat ks"
    by (simp add: word_less_nat_alt)
  moreover have "unat ks < 2 ^ 32"
    using unsigned_less [of ks, where ?'a = nat] by simp
  ultimately have "unat (k + 1) = unat k + 1"
    by (simp add: unat_word_ariths)
  with lt show "((md, a, ks, arr', cont', k + 1), (md, a, ks, arr, cont, k))
          \<in> measure (\<lambda>(md, a, ks, arr, cont, k). unat ks - unat k)"
    by simp
qed simp

declare k_loop.simps [simp del]

text \<open>\<^verbatim>\<open>list_for_each_entry(sinfo, &ketama->servers, list)\<close>, lines 178 to 211.\<close>

fun server_loop ::
  "(string \<Rightarrow> digest) \<Rightarrow> Ketama \<Rightarrow> serverinfo list \<Rightarrow> mcs list \<Rightarrow> 32 word
     \<Rightarrow> error + mcs list \<times> 32 word" where
  "server_loop md ketama [] arr cont = Inr (arr, cont)"
| "server_loop md ketama (sinfo # rest) arr cont =
     (case hash_rounds (info_memory sinfo) (memory ketama) (numservers ketama) of
        Inl e \<Rightarrow> Inl e
      | Inr ks \<Rightarrow>
          let (arr', cont') = k_loop md (addr sinfo) ks arr cont 0
          in server_loop md ketama rest arr' cont')"

text \<open>Lines 166 to 219. \<^verbatim>\<open>Alloc_alloc\<close> gives a block with no cell written. The sort
  of line 217 is commented out in the source, and nothing is assigned to
  \<^verbatim>\<open>numpoints\<close>.\<close>

definition Ketama_create_continuum :: "(string \<Rightarrow> digest) \<Rightarrow> Ketama \<Rightarrow> error + Ketama" where
  "Ketama_create_continuum md ketama =
     (if \<not> 0 < numservers ketama then Inl AssertionFailed
      else if continuum ketama \<noteq> None then Inl AssertionFailed
      else case server_loop md ketama (servers ketama) [] 0 of
             Inl e \<Rightarrow> Inl e
           | Inr (arr, cont) \<Rightarrow> Inr (ketama\<lparr>continuum := Some arr\<rparr>))"

subsection \<open>Calls in sequence, and the loop counted\<close>

text \<open>\<^verbatim>\<open>Ketama_add_server\<close> called for each \<open>(addr, port, weight)\<close> of a list in turn.\<close>

definition add_servers :: "Ketama \<Rightarrow> (string \<times> int \<times> 64 word) list \<Rightarrow> Ketama" where
  "add_servers = foldl (\<lambda>ketama (a, port, weight). Ketama_add_server ketama a port weight)"

text \<open>The loop of the lookup with a bound on the number of passes: \<open>None\<close> when the
  bound is used up before the loop returns.\<close>

fun search_fuel ::
  "nat \<Rightarrow> Ketama \<Rightarrow> 32 word \<Rightarrow> int \<Rightarrow> int \<Rightarrow> ((error + nat) \<times> Ketama) option" where
  "search_fuel 0 ketama h lowp highp = None"
| "search_fuel (Suc n) ketama h lowp highp =
     (case loop_body ketama h lowp highp of
        Return r \<Rightarrow> Some (r, ketama)
      | Again lowp' highp' \<Rightarrow> search_fuel n ketama h lowp' highp')"

subsection \<open>The ring as the specification describes it\<close>

text \<open>
  The specification's words for construction, to compare the loops with: the \<open>g\<close>-th
  group of four digest bytes read as a little-endian number; the four points of one
  digest; the points of one server, from the digests of \<open>identifier-k\<close> for \<open>k\<close> below
  its number of rounds; the ring, server after server. \<open>spec_hash_rounds\<close> is the
  specification's \<open>floor(share \<times> 40 \<times> serverCount)\<close> over the reals.
\<close>

definition le_uint32 :: "digest \<Rightarrow> nat \<Rightarrow> 32 word" where
  "le_uint32 d g =
     word_of_nat (unat (d (4 * g)) + 256 * unat (d (4 * g + 1)) + 65536 * unat (d (4 * g + 2))
       + 16777216 * unat (d (4 * g + 3)))"

definition digest_points :: "digest \<Rightarrow> string \<Rightarrow> mcs list" where
  "digest_points d a = map (\<lambda>g. \<lparr>point = le_uint32 d g, ip = a\<rparr>) [0..<4]"

definition server_points :: "(string \<Rightarrow> digest) \<Rightarrow> string \<Rightarrow> nat \<Rightarrow> mcs list" where
  "server_points md a n = concat (map (\<lambda>k. digest_points (md (a @ ''-'' @ dec k)) a) [0..<n])"

definition rounds_of :: "Ketama \<Rightarrow> serverinfo \<Rightarrow> nat" where
  "rounds_of ketama sinfo =
     (case hash_rounds (info_memory sinfo) (memory ketama) (numservers ketama) of
        Inl e \<Rightarrow> 0 | Inr ks \<Rightarrow> unat ks)"

definition ring_of :: "(string \<Rightarrow> digest) \<Rightarrow> Ketama \<Rightarrow> mcs list" where
  "ring_of md ketama =
     concat (map (\<lambda>sinfo. server_points md (addr sinfo) (rounds_of ketama sinfo)) (servers ketama))"


text \<open>
  The specification's words for the lookup: the first cell, in the order of the ring,
  whose position is at least the hash. In a sorted ring that is a cell of the smallest
  position at least the hash. When there is none the lookup wraps to the cell of index 0.
\<close>

fun first_at_least :: "32 word \<Rightarrow> mcs list \<Rightarrow> nat option" where
  "first_at_least h [] = None"
| "first_at_least h (c # cs) =
     (if h \<le> point c then Some 0 else map_option Suc (first_at_least h cs))"

definition successor_index :: "32 word \<Rightarrow> mcs list \<Rightarrow> nat" where
  "successor_index h ring = (case first_at_least h ring of None \<Rightarrow> 0 | Some j \<Rightarrow> j)"

subsection \<open>Digest functions for concrete runs\<close>

text \<open>The digest that is zero everywhere.\<close>

definition md_zero :: "string \<Rightarrow> digest" where
  "md_zero s i = 0"

text \<open>A digest whose four words are all 1 for a string that starts with \<open>b\<close>, and all 0
  for any other string.\<close>

definition md_ab :: "string \<Rightarrow> digest" where
  "md_ab s i = (if i mod 4 = 0 \<and> s \<noteq> [] \<and> hd s = CHR ''b'' then 1 else 0)"

text \<open>The MD5 digests (RFC 1321) of the forty strings that construction hashes for the
  single server \<^verbatim>\<open>10.0.0.1:11211\<close>.\<close>

definition md5_table :: "(string \<times> 8 word list) list" where
  "md5_table =
    [
     (''10.0.0.1:11211-0'', [118, 36, 9, 98, 226, 159, 227, 15, 64, 127, 89, 92, 81, 126, 117, 119]),
     (''10.0.0.1:11211-1'', [30, 196, 179, 24, 8, 209, 13, 46, 10, 151, 56, 44, 239, 52, 201, 238]),
     (''10.0.0.1:11211-2'', [55, 105, 147, 159, 75, 69, 203, 119, 17, 109, 31, 74, 232, 47, 82, 247]),
     (''10.0.0.1:11211-3'', [156, 172, 163, 218, 0, 84, 123, 152, 50, 145, 33, 116, 122, 188, 161, 12]),
     (''10.0.0.1:11211-4'', [119, 226, 125, 174, 133, 236, 22, 72, 99, 104, 222, 195, 48, 114, 63, 212]),
     (''10.0.0.1:11211-5'', [70, 191, 70, 76, 225, 138, 77, 106, 235, 183, 132, 187, 101, 59, 104, 110]),
     (''10.0.0.1:11211-6'', [109, 216, 127, 26, 206, 118, 34, 25, 19, 239, 246, 15, 143, 168, 35, 236]),
     (''10.0.0.1:11211-7'', [86, 111, 133, 192, 218, 197, 146, 184, 81, 144, 102, 247, 247, 154, 87, 150]),
     (''10.0.0.1:11211-8'', [237, 100, 38, 211, 143, 80, 169, 39, 64, 42, 47, 254, 253, 13, 199, 44]),
     (''10.0.0.1:11211-9'', [233, 50, 51, 233, 53, 158, 137, 68, 220, 93, 74, 254, 121, 97, 178, 127]),
     (''10.0.0.1:11211-10'', [172, 250, 108, 223, 64, 199, 197, 153, 99, 20, 226, 166, 243, 202, 98, 177]),
     (''10.0.0.1:11211-11'', [246, 169, 91, 208, 234, 36, 1, 241, 194, 238, 197, 210, 243, 7, 161, 85]),
     (''10.0.0.1:11211-12'', [36, 18, 98, 230, 65, 57, 68, 232, 136, 189, 214, 224, 217, 27, 174, 41]),
     (''10.0.0.1:11211-13'', [46, 118, 195, 89, 167, 200, 192, 142, 87, 187, 142, 93, 201, 45, 30, 34]),
     (''10.0.0.1:11211-14'', [22, 39, 80, 83, 185, 13, 236, 147, 246, 254, 69, 238, 51, 163, 167, 161]),
     (''10.0.0.1:11211-15'', [121, 77, 222, 75, 247, 39, 211, 75, 193, 178, 78, 42, 29, 137, 181, 255]),
     (''10.0.0.1:11211-16'', [123, 203, 230, 121, 7, 253, 177, 123, 191, 23, 140, 134, 70, 119, 230, 114]),
     (''10.0.0.1:11211-17'', [248, 26, 201, 228, 173, 146, 91, 124, 222, 42, 88, 28, 132, 202, 30, 11]),
     (''10.0.0.1:11211-18'', [132, 249, 151, 222, 215, 202, 249, 140, 38, 87, 239, 6, 246, 64, 159, 183]),
     (''10.0.0.1:11211-19'', [5, 158, 66, 10, 196, 129, 158, 163, 109, 188, 217, 125, 13, 48, 117, 60]),
     (''10.0.0.1:11211-20'', [7, 10, 100, 33, 172, 169, 117, 228, 88, 58, 176, 26, 42, 32, 172, 10]),
     (''10.0.0.1:11211-21'', [191, 111, 16, 149, 117, 100, 5, 102, 10, 2, 58, 22, 7, 123, 230, 253]),
     (''10.0.0.1:11211-22'', [206, 173, 212, 210, 188, 1, 47, 241, 78, 91, 61, 86, 153, 189, 76, 201]),
     (''10.0.0.1:11211-23'', [224, 143, 155, 226, 118, 204, 111, 158, 137, 33, 220, 63, 149, 13, 233, 117]),
     (''10.0.0.1:11211-24'', [233, 15, 201, 14, 234, 196, 57, 132, 57, 108, 169, 30, 15, 238, 119, 100]),
     (''10.0.0.1:11211-25'', [5, 253, 183, 177, 246, 214, 245, 39, 138, 204, 117, 179, 40, 180, 243, 58]),
     (''10.0.0.1:11211-26'', [154, 86, 15, 90, 164, 245, 207, 154, 205, 125, 104, 53, 71, 190, 201, 57]),
     (''10.0.0.1:11211-27'', [167, 180, 211, 220, 205, 167, 219, 250, 47, 78, 97, 43, 240, 83, 223, 191]),
     (''10.0.0.1:11211-28'', [199, 35, 226, 54, 128, 8, 201, 113, 134, 82, 8, 184, 84, 171, 44, 131]),
     (''10.0.0.1:11211-29'', [228, 215, 152, 79, 236, 158, 233, 10, 11, 168, 67, 75, 53, 140, 180, 215]),
     (''10.0.0.1:11211-30'', [255, 150, 225, 249, 23, 157, 141, 73, 125, 98, 167, 35, 68, 152, 177, 105]),
     (''10.0.0.1:11211-31'', [130, 69, 4, 78, 18, 197, 106, 90, 39, 131, 141, 136, 196, 99, 158, 74]),
     (''10.0.0.1:11211-32'', [104, 157, 57, 247, 51, 41, 191, 118, 44, 133, 213, 145, 194, 149, 83, 82]),
     (''10.0.0.1:11211-33'', [212, 43, 90, 140, 228, 105, 216, 248, 185, 125, 14, 11, 112, 241, 190, 230]),
     (''10.0.0.1:11211-34'', [37, 25, 25, 27, 26, 164, 131, 73, 112, 78, 100, 83, 87, 170, 218, 150]),
     (''10.0.0.1:11211-35'', [155, 127, 134, 133, 35, 202, 94, 234, 10, 117, 69, 231, 163, 50, 192, 171]),
     (''10.0.0.1:11211-36'', [218, 251, 200, 28, 163, 247, 100, 223, 147, 219, 129, 14, 173, 52, 74, 211]),
     (''10.0.0.1:11211-37'', [250, 28, 107, 102, 219, 255, 97, 208, 63, 95, 233, 188, 124, 48, 200, 190]),
     (''10.0.0.1:11211-38'', [97, 255, 100, 164, 63, 97, 239, 209, 110, 235, 5, 130, 68, 27, 85, 83]),
     (''10.0.0.1:11211-39'', [254, 214, 22, 96, 45, 233, 74, 226, 244, 164, 96, 15, 215, 22, 51, 151])
    ]"

definition md5_10_0_0_1 :: "string \<Rightarrow> digest" where
  "md5_10_0_0_1 s i = (case map_of md5_table s of None \<Rightarrow> 0 | Some bytes \<Rightarrow> bytes ! i)"

subsection \<open>States for concrete runs of the lookup\<close>

text \<open>A state whose \<open>numpoints\<close> is \<^verbatim>\<open>INT_MAX\<close>, with as many cells, all at
  position 0.\<close>

definition ketama_max :: Ketama where
  "ketama_max =
     \<lparr>numpoints = 2147483647, numservers = 1, memory = 1,
      continuum = Some (replicate 2147483647 \<lparr>point = 0, ip = ''a:1''\<rparr>),
      servers = [\<lparr>addr = ''a:1'', info_memory = 1\<rparr>]\<rparr>"

text \<open>A state whose \<open>numpoints\<close> is 1, with no cell written.\<close>

definition ketama_short :: Ketama where
  "ketama_short =
     \<lparr>numpoints = 1, numservers = 1, memory = 1, continuum = Some [],
      servers = [\<lparr>addr = ''a:1'', info_memory = 1\<rparr>]\<rparr>"

text \<open>A state whose \<open>numpoints\<close> is 2, the number of its cells.\<close>

definition ketama_two :: Ketama where
  "ketama_two =
     \<lparr>numpoints = 2, numservers = 1, memory = 1,
      continuum = Some [\<lparr>point = 10, ip = ''a:1''\<rparr>, \<lparr>point = 20, ip = ''a:1''\<rparr>],
      servers = [\<lparr>addr = ''a:1'', info_memory = 1\<rparr>]\<rparr>"

section \<open>Properties\<close>

subsection \<open>Evaluating the arithmetic\<close>

lemma bitlen_numeral:
  "bitlen 0 = 0" "bitlen 1 = 1" "bitlen (Suc 0) = 1"
  "bitlen (numeral (Num.Bit0 n)) = Suc (bitlen (numeral n))"
  "bitlen (numeral (Num.Bit1 n)) = Suc (bitlen (numeral n))"
      apply (simp_all add: bitlen.simps [of 0] bitlen.simps [of 1] bitlen.simps [of "Suc 0"])
  subgoal by (subst bitlen.simps) (simp add: numeral_Bit0_div_2)
  subgoal by (subst bitlen.simps) (simp add: numeral_Bit1_div_2)
  done

lemmas float_eval = hash_rounds_def pct_of_def to_float_def to_double_def round_to_def binexp_def
  scale2_def frac_le_def frac_mult_def frac_div_def floorf_def rne_def Let_def bitlen_numeral

text \<open>The rounding at known values: \<open>0.1\<close> in both formats, a third, two ties above
  \<open>2 ^ 24\<close>, and the share \<open>21 / 40\<close>.\<close>

lemma round_to_examples:
  "to_float (1, 10) = (13421773, 2 ^ 27)"
  "to_double (1, 10) = (7205759403792794, 2 ^ 56)"
  "to_float (1, 3) = (11184811, 2 ^ 25)"
  "to_float (16777217, 1) = (16777216, 1)"
  "to_float (16777219, 1) = (16777220, 1)"
  "to_float (21, 40) = (8808038, 2 ^ 24)"
  by (simp_all add: float_eval cong: let_weak_cong)

lemma hr_1_1_1: "hash_rounds 1 1 1 = Inr 40"
  by (simp add: float_eval cong: let_weak_cong)

lemma hr_1_2_2: "hash_rounds 1 2 2 = Inr 40"
  by (simp add: float_eval cong: let_weak_cong)




lemma hr_0_0_1: "hash_rounds 0 0 1 = Inl FloatToUnsignedUndefined"
  by (simp add: float_eval cong: let_weak_cong)

lemma dec_eval:
  "dec 0 = ''0''" "dec (Suc 0) = ''1''" "dec 1 = ''1''"
  "dec (numeral v) =
     (if numeral v < (10::nat) then [''0123456789'' ! numeral v]
      else dec (numeral v div 10) @ [''0123456789'' ! (numeral v mod 10)])"
  by (simp_all add: dec.simps [of 0] dec.simps [of 1] dec.simps [of "Suc 0"] dec.simps [of "numeral v"])


lemma fmt_d_uint: "fmt_d (uint k) = dec (unat k)"
  by (simp add: fmt_d_def)

lemma sint_small: "unat (k :: 32 word) < 2 ^ 31 \<Longrightarrow> sint k = uint k"
proof -
  assume "unat k < 2 ^ 31"
  then have "int (unat k) < int (2 ^ 31)" by (rule of_nat_less_iff [THEN iffD2])
  then have "uint k < 2 ^ 31" by simp
  moreover have "- (2 ^ 31) \<le> uint k"
    by (rule order_trans [of _ 0]) simp_all
  ultimately have "signed_take_bit 31 (uint k) = uint k"
    by (rule signed_take_bit_int_eq_self [rotated])
  then show ?thesis
    by (simp add: sint_uint)
qed

lemma unat_add_small: "unat (c :: 32 word) + n < 2 ^ 32 \<Longrightarrow> unat (c + word_of_nat n) = unat c + n"
  by (simp add: unat_word_ariths unat_of_nat)

lemma upt_4: "[0..<4] = [0, 1, 2, 3]"
  by (simp add: upt_rec numeral_eq_Suc)

subsection \<open>Byte order\<close>

lemma or_bytes:
  fixes b0 b1 b2 b3 :: "8 word"
  shows "(push_bit 24 (ucast b3) OR push_bit 16 (ucast b2) OR push_bit 8 (ucast b1) OR ucast b0 :: 32 word)
    = word_of_nat (unat b0 + 256 * unat b1 + 65536 * unat b2 + 16777216 * unat b3)"
proof -
  let ?w0 = "ucast b0 :: 32 word" and ?w1 = "push_bit 8 (ucast b1) :: 32 word"
  and ?w2 = "push_bit 16 (ucast b2) :: 32 word" and ?w3 = "push_bit 24 (ucast b3) :: 32 word"
  have d1: "?w1 OR ?w0 = ?w1 + ?w0"
    by (rule disjunctive_add_eq_or [symmetric]) (auto simp: bit_eq_iff bit_simps dest: bit_imp_le_length)
  have d2: "?w2 OR (?w1 OR ?w0) = ?w2 + (?w1 OR ?w0)"
    by (rule disjunctive_add_eq_or [symmetric]) (auto simp: bit_eq_iff bit_simps dest: bit_imp_le_length)
  have d3: "?w3 OR (?w2 OR (?w1 OR ?w0)) = ?w3 + (?w2 OR (?w1 OR ?w0))"
    by (rule disjunctive_add_eq_or [symmetric]) (auto simp: bit_eq_iff bit_simps dest: bit_imp_le_length)
  have "?w3 OR ?w2 OR ?w1 OR ?w0 = ?w3 + (?w2 OR (?w1 OR ?w0))"
    by (rule d3)
  also have "\<dots> = ?w3 + (?w2 + (?w1 OR ?w0))"
    by (simp only: d2)
  also have "\<dots> = ?w3 + (?w2 + (?w1 + ?w0))"
    by (simp only: d1)
  also have "\<dots> = word_of_nat (unat b0 + 256 * unat b1 + 65536 * unat b2 + 16777216 * unat b3)"
    by (simp add: push_bit_eq_mult)
  finally show ?thesis .
qed

lemma continuum_point_le: "continuum_point d (int g) = le_uint32 d g"
  using or_bytes [of "d (4 * g + 3)" "d (4 * g + 2)" "d (4 * g + 1)" "d (4 * g)"]
  by (simp add: continuum_point_def le_uint32_def nat_add_distrib nat_mult_distrib ac_simps)

lemma hashi_le: "ketama_hashi md key = le_uint32 (md key) 0"
  using or_bytes [of "md key 3" "md key 2" "md key 1" "md key 0"]
  by (simp add: ketama_hashi_def ketama_md5_digest_def le_uint32_def Let_def numeral_2_eq_2)

lemma unat_le_uint32:
  "unat (le_uint32 d g) = unat (d (4 * g)) + 256 * unat (d (4 * g + 1))
     + 65536 * unat (d (4 * g + 2)) + 16777216 * unat (d (4 * g + 3))"
proof -
  have b: "unat (x :: 8 word) < 256" for x
    using unsigned_less [of x, where ?'a = nat] by simp
  have "unat (d (4 * g)) + 256 * unat (d (4 * g + 1))
     + 65536 * unat (d (4 * g + 2)) + 16777216 * unat (d (4 * g + 3)) < 2 ^ 32"
    using b [of "d (4 * g)"] b [of "d (4 * g + 1)"] b [of "d (4 * g + 2)"] b [of "d (4 * g + 3)"]
    by simp
  moreover have "unat (word_of_nat n :: 32 word) = n" if "n < 2 ^ 32" for n
    using that by (simp add: unat_of_nat)
  ultimately show ?thesis
    unfolding le_uint32_def by blast
qed

subsection \<open>The loops of construction\<close>

lemma length_digest_points: "length (digest_points d a) = 4"
  by (simp add: digest_points_def)

lemma length_server_points: "length (server_points md a n) = 4 * n"
  by (induction n) (simp_all add: server_points_def length_digest_points)




lemma server_points_Suc:
  "server_points md a (Suc n) = server_points md a n @ digest_points (md (a @ ''-'' @ dec n)) a"
  by (simp add: server_points_def)

lemma server_points_nth:
  "i < 4 * n \<Longrightarrow>
   server_points md a n ! i = digest_points (md (a @ ''-'' @ dec (i div 4))) a ! (i mod 4)"
proof (induction n)
  case 0
  then show ?case by simp
next
  case (Suc n)
  show ?case
  proof (cases "i < 4 * n")
    case True
    with Suc.IH show ?thesis
      by (simp add: server_points_Suc nth_append length_server_points)
  next
    case False
    with Suc.prems have "i div 4 = n" "i - 4 * n = i mod 4"
      by (auto simp: div_nat_eqI) presburger+
    with False show ?thesis
      by (simp add: server_points_Suc nth_append length_server_points)
  qed
qed

lemma digest_points_nth: "g < 4 \<Longrightarrow> digest_points d a ! g = \<lparr>point = le_uint32 d g, ip = a\<rparr>"
  by (simp add: digest_points_def)

lemma h_loop_closed_gen:
  "0 \<le> h \<Longrightarrow> h \<le> 4 \<Longrightarrow> unat cont = length arr \<Longrightarrow> length arr + nat (4 - h) < 2 ^ 32 \<Longrightarrow>
   h_loop d a arr cont h =
     (arr @ map (\<lambda>g. \<lparr>point = continuum_point d (int g), ip = a\<rparr>) [nat h..<4],
      cont + word_of_nat (nat (4 - h)))"
proof (induction d a arr cont h rule: h_loop.induct)
  case (1 d a arr cont h)
  show ?case
  proof (cases "h < 4")
    case False
    with "1.prems" have "h = 4" by simp
    then show ?thesis by (simp add: h_loop.simps [of d a arr cont 4])
  next
    case True
    let ?c = "\<lparr>point = continuum_point d h, ip = a\<rparr>"
    have st: "store arr (unat cont) ?c = arr @ [?c]"
      using "1.prems" by (simp add: store_def)
    have u: "unat (cont + 1) = length (arr @ [?c])"
      using "1.prems" True unat_add_small [of cont 1] by simp
    have n: "nat (4 - h) = Suc (nat (4 - (h + 1)))" "nat (h + 1) = Suc (nat h)" "int (nat h) = h"
      using True "1.prems" by auto
    have up: "[nat h..<4] = nat h # [Suc (nat h)..<4]"
      using True "1.prems" by (simp add: upt_conv_Cons)
    have "h_loop d a arr cont h = h_loop d a (arr @ [?c]) (cont + 1) (h + 1)"
      using True st by (subst h_loop.simps) simp
    also have "\<dots> = ((arr @ [?c]) @ map (\<lambda>g. \<lparr>point = continuum_point d (int g), ip = a\<rparr>) [nat (h + 1)..<4],
      cont + 1 + word_of_nat (nat (4 - (h + 1))))"
      using "1.IH" [OF True] True "1.prems" u st n by simp
    finally show ?thesis
      using "1.prems" by (simp add: n up)
  qed
qed

lemma h_loop_closed:
  assumes "unat cont = length arr" and "length arr + 4 < 2 ^ 32"
  shows "h_loop d a arr cont 0 = (arr @ digest_points d a, cont + 4)"
  using h_loop_closed_gen [of 0 cont arr d a] assms
  by (simp add: digest_points_def continuum_point_le)

lemma k_loop_closed:
  "k \<le> ks \<Longrightarrow> unat ks < 2 ^ 31 \<Longrightarrow> unat cont = length arr \<Longrightarrow>
   length arr + 4 * (unat ks - unat k) < 2 ^ 32 \<Longrightarrow>
   k_loop md a ks arr cont k =
     (arr @ concat (map (\<lambda>j. digest_points (md (a @ ''-'' @ dec j)) a) [unat k..<unat ks]),
      cont + word_of_nat (4 * (unat ks - unat k)))"
proof (induction md a ks arr cont k rule: k_loop.induct)
  case (1 md a ks arr cont k)
  show ?case
  proof (cases "k < ks")
    case False
    with "1.prems" have "k = ks" by simp
    then show ?thesis by (simp add: k_loop.simps [of md a ks arr cont ks])
  next
    case True
    then have lt: "unat k < unat ks" by (simp add: word_less_nat_alt)
    let ?d = "md (a @ ''-'' @ dec (unat k))"
    have "unat k < 2 ^ 31" using lt "1.prems"(2) by (rule less_trans)
    then have str: "a @ ''-'' @ fmt_d (sint k) = a @ ''-'' @ dec (unat k)"
      by (simp add: sint_small fmt_d_uint)
    have h: "h_loop ?d a arr cont 0 = (arr @ digest_points ?d a, cont + 4)"
      using "1.prems" lt by (intro h_loop_closed) auto
    have uk: "unat (k + 1) = Suc (unat k)"
      using lt unat_add_small [of k 1] unsigned_less [of ks, where ?'a = nat] by simp
    have uc: "unat (cont + 4) = length (arr @ digest_points ?d a)"
      using "1.prems" lt unat_add_small [of cont 4] by (simp add: length_digest_points)
    have le: "k + 1 \<le> ks"
      using True by (simp add: inc_le)
    have step: "k_loop md a ks arr cont k = k_loop md a ks (arr @ digest_points ?d a) (cont + 4) (k + 1)"
      using True h str by (subst k_loop.simps) (simp add: ketama_md5_digest_def)
    have ih: "k_loop md a ks (arr @ digest_points ?d a) (cont + 4) (k + 1) =
       ((arr @ digest_points ?d a) @ concat (map (\<lambda>j. digest_points (md (a @ ''-'' @ dec j)) a) [unat (k + 1)..<unat ks]),
        cont + 4 + word_of_nat (4 * (unat ks - unat (k + 1))))"
    proof (rule "1.IH" [OF True refl refl refl _ le _ uc])
      show "(arr @ digest_points ?d a, cont + 4) = h_loop (ketama_md5_digest md (a @ ''-'' @ fmt_d (sint k))) a arr cont 0"
        using h str by (simp add: ketama_md5_digest_def)
      show "unat ks < 2 ^ 31" by (rule "1.prems")
      show "length (arr @ digest_points ?d a) + 4 * (unat ks - unat (k + 1)) < 2 ^ 32"
        using "1.prems" lt uk by (simp add: length_digest_points)
    qed
    have up: "[unat k..<unat ks] = unat k # [Suc (unat k)..<unat ks]"
      using lt by (simp add: upt_conv_Cons)
    have w: "cont + 4 + word_of_nat (4 * (unat ks - Suc (unat k))) = cont + word_of_nat (4 * (unat ks - unat k))"
    proof -
      have "4 * (unat ks - unat k) = 4 + 4 * (unat ks - Suc (unat k))" using lt by simp
      then show ?thesis by simp
    qed
    show ?thesis
      unfolding step ih uk up using w by simp
  qed
qed

lemma k_loop_server_points:
  assumes "unat cont = length arr" and "length arr + 4 * unat ks < 2 ^ 32"
  shows "k_loop md a ks arr cont 0 =
           (arr @ server_points md a (unat ks), cont + word_of_nat (4 * unat ks))"
proof -
  have "4 * unat ks < 2 ^ 32" using assms(2) by simp
  then have "unat ks < 2 ^ 31" by simp
  with assms show ?thesis
    using k_loop_closed [of 0 ks cont arr md a] by (simp add: server_points_def)
qed

lemma server_loop_closed:
  "server_loop md ketama ss arr cont = Inr (arr', cont') \<Longrightarrow> unat cont = length arr \<Longrightarrow>
   length arr + 4 * sum_list (map (rounds_of ketama) ss) < 2 ^ 32 \<Longrightarrow>
   arr' = arr @ concat (map (\<lambda>sinfo. server_points md (addr sinfo) (rounds_of ketama sinfo)) ss)
   \<and> unat cont' = length arr'"
proof (induction ss arbitrary: arr cont)
  case Nil
  then show ?case by simp
next
  case (Cons sinfo rest)
  from Cons.prems(1) obtain ks where
    hr: "hash_rounds (info_memory sinfo) (memory ketama) (numservers ketama) = Inr ks"
    by (auto split: sum.splits)
  then have r: "rounds_of ketama sinfo = unat ks"
    by (simp add: rounds_of_def)
  let ?arr = "arr @ server_points md (addr sinfo) (unat ks)"
  let ?cont = "cont + word_of_nat (4 * unat ks)"
  have b: "length arr + 4 * unat ks < 2 ^ 32"
    using Cons.prems(3) r by simp
  have k: "k_loop md (addr sinfo) ks arr cont 0 = (?arr, ?cont)"
    using Cons.prems(2) b by (rule k_loop_server_points)
  have u: "unat ?cont = length ?arr"
    using Cons.prems(2) b unat_add_small [of cont "4 * unat ks"]
    by (simp add: length_server_points)
  have rest: "server_loop md ketama rest ?arr ?cont = Inr (arr', cont')"
    using Cons.prems(1) hr k by simp
  have "length ?arr + 4 * sum_list (map (rounds_of ketama) rest) < 2 ^ 32"
    using Cons.prems(3) r by (simp add: length_server_points)
  from Cons.IH [OF rest u this] r show ?case by simp
qed

lemma create_continuum_closed:
  assumes "Ketama_create_continuum md ketama = Inr ketama'"
    and "4 * sum_list (map (rounds_of ketama) (servers ketama)) < 2 ^ 32"
  shows "ketama' = ketama\<lparr>continuum := Some (ring_of md ketama)\<rparr>"
proof -
  from assms(1) obtain arr cont where
    sl: "server_loop md ketama (servers ketama) [] 0 = Inr (arr, cont)"
    and k': "ketama' = ketama\<lparr>continuum := Some arr\<rparr>"
    by (auto simp: Ketama_create_continuum_def split: if_splits sum.splits)
  from server_loop_closed [OF sl] assms(2) have "arr = ring_of md ketama"
    by (simp add: ring_of_def)
  with k' show ?thesis by simp
qed

lemma server_loop_succeeds:
  "\<forall>sinfo \<in> set ss. \<exists>ks. hash_rounds (info_memory sinfo) (memory ketama) (numservers ketama) = Inr ks
   \<Longrightarrow> \<exists>r. server_loop md ketama ss arr cont = Inr r"
  by (induction ss arbitrary: arr cont) (auto split: prod.splits)

lemma create_continuum_succeeds:
  assumes "0 < numservers ketama" and "continuum ketama = None"
    and "\<forall>sinfo \<in> set (servers ketama).
           \<exists>ks. hash_rounds (info_memory sinfo) (memory ketama) (numservers ketama) = Inr ks"
  shows "\<exists>ketama'. Ketama_create_continuum md ketama = Inr ketama'"
proof -
  from server_loop_succeeds [OF assms(3)] obtain arr cont
    where "server_loop md ketama (servers ketama) [] 0 = Inr (arr, cont)"
    by fastforce
  with assms(1,2) show ?thesis
    by (simp add: Ketama_create_continuum_def)
qed

lemma server_loop_rounds:
  "server_loop md ketama ss arr cont = Inr r \<Longrightarrow> sinfo \<in> set ss \<Longrightarrow>
   hash_rounds (info_memory sinfo) (memory ketama) (numservers ketama)
     = Inr (word_of_nat (rounds_of ketama sinfo))"
proof (induction ss arbitrary: arr cont)
  case Nil
  then show ?case by simp
next
  case (Cons s rest)
  from Cons.prems(1) obtain ks where
    hr: "hash_rounds (info_memory s) (memory ketama) (numservers ketama) = Inr ks"
    by (auto split: sum.splits)
  show ?case
  proof (cases "sinfo = s")
    case True
    with hr show ?thesis by (simp add: rounds_of_def)
  next
    case False
    with Cons.prems(2) have "sinfo \<in> set rest" by simp
    moreover from Cons.prems(1) hr obtain arr' cont' where
      "server_loop md ketama rest arr' cont' = Inr r"
      by (auto split: prod.splits)
    ultimately show ?thesis using Cons.IH by blast
  qed
qed

lemma create_continuum_rounds:
  assumes "Ketama_create_continuum md ketama = Inr ketama'" and "sinfo \<in> set (servers ketama)"
  shows "hash_rounds (info_memory sinfo) (memory ketama) (numservers ketama)
     = Inr (word_of_nat (rounds_of ketama sinfo))"
proof -
  from assms(1) obtain r where "server_loop md ketama (servers ketama) [] 0 = Inr r"
    by (auto simp: Ketama_create_continuum_def split: if_splits sum.splits)
  from server_loop_rounds [OF this assms(2)] show ?thesis .
qed

subsection \<open>The server list\<close>

lemma numpoints_add_server: "numpoints (Ketama_add_server ketama a port weight) = numpoints ketama"
  by (simp add: Ketama_add_server_def)

lemma numpoints_add_servers: "numpoints (add_servers ketama calls) = numpoints ketama"
  unfolding add_servers_def
  by (induction calls arbitrary: ketama) (auto simp: numpoints_add_server)

lemma numpoints_create_continuum:
  "Ketama_create_continuum md ketama = Inr ketama' \<Longrightarrow> numpoints ketama' = numpoints ketama"
  by (auto simp: Ketama_create_continuum_def split: if_splits sum.splits)

subsection \<open>Three runs of construction\<close>

lemma one_server_state:
  "add_servers Ketama_new [(''10.0.0.1'', 11211, 1)] =
     \<lparr>numpoints = 0, numservers = 1, memory = 1, continuum = None,
      servers = [\<lparr>addr = ''10.0.0.1:11211'', info_memory = 1\<rparr>]\<rparr>"
  by (simp add: add_servers_def Ketama_add_server_def Ketama_new_def list_add_def fmt_d_def dec_eval)

lemma one_server_created:
  "\<exists>ketama'. Ketama_create_continuum md (add_servers Ketama_new [(''10.0.0.1'', 11211, 1)]) = Inr ketama'"
  by (rule create_continuum_succeeds) (simp_all add: one_server_state hr_1_1_1)

lemma one_server_ring:
  assumes "Ketama_create_continuum md (add_servers Ketama_new [(''10.0.0.1'', 11211, 1)]) = Inr ketama"
  shows "numpoints ketama = 0
       \<and> continuum ketama = Some (server_points md ''10.0.0.1:11211'' 40)"
proof -
  let ?k = "add_servers Ketama_new [(''10.0.0.1'', 11211, 1)]"
  have r: "rounds_of ?k \<lparr>addr = ''10.0.0.1:11211'', info_memory = 1\<rparr> = 40"
    by (simp add: rounds_of_def one_server_state hr_1_1_1)
  have "4 * sum_list (map (rounds_of ?k) (servers ?k)) < 2 ^ 32"
    using r by (simp add: one_server_state)
  from create_continuum_closed [OF assms this] r show ?thesis
    by (simp add: ring_of_def one_server_state)
qed

lemma md5_first:
  "map_of md5_table ''10.0.0.1:11211-0''
     = Some [118, 36, 9, 98, 226, 159, 227, 15, 64, 127, 89, 92, 81, 126, 117, 119]"
  by (simp add: md5_table_def)

lemma two_server_state:
  "add_servers Ketama_new [(''a'', 1, 1), (''b'', 1, 1)] =
     \<lparr>numpoints = 0, numservers = 2, memory = 2, continuum = None,
      servers = [\<lparr>addr = ''a:1'', info_memory = 1\<rparr>, \<lparr>addr = ''b:1'', info_memory = 1\<rparr>]\<rparr>"
  by (simp add: add_servers_def Ketama_add_server_def Ketama_new_def list_add_def fmt_d_def dec_eval)

lemma two_servers_created:
  "\<exists>ketama. Ketama_create_continuum md (add_servers Ketama_new [(''a'', 1, 1), (''b'', 1, 1)]) = Inr ketama"
  by (rule create_continuum_succeeds) (simp_all add: two_server_state hr_1_2_2)

lemma two_server_ring:
  assumes "Ketama_create_continuum md (add_servers Ketama_new [(''a'', 1, 1), (''b'', 1, 1)]) = Inr ketama"
  shows "numpoints ketama = 0
    \<and> continuum ketama = Some (server_points md ''a:1'' 40 @ server_points md ''b:1'' 40)"
proof -
  let ?k = "add_servers Ketama_new [(''a'', 1, 1), (''b'', 1, 1)]"
  have r: "rounds_of ?k \<lparr>addr = ''a:1'', info_memory = 1\<rparr> = 40"
    "rounds_of ?k \<lparr>addr = ''b:1'', info_memory = 1\<rparr> = 40"
    by (simp_all add: rounds_of_def two_server_state hr_1_2_2)
  have "4 * sum_list (map (rounds_of ?k) (servers ?k)) < 2 ^ 32"
    using r by (simp add: two_server_state)
  from create_continuum_closed [OF assms this] r show ?thesis
    by (simp add: ring_of_def two_server_state)
qed

lemma le_uint32_md_ab:
  "le_uint32 (md_ab s) g = (if s \<noteq> [] \<and> hd s = CHR ''b'' then 1 else 0)"
proof -
  have "(4 * g) mod 4 = 0" "(4 * g + 1) mod 4 \<noteq> 0" "(4 * g + 2) mod 4 \<noteq> 0" "(4 * g + 3) mod 4 \<noteq> 0"
    by presburger+
  then show ?thesis
    unfolding le_uint32_def md_ab_def by simp
qed

lemma digest_points_md_ab:
  "a \<noteq> [] \<Longrightarrow> digest_points (md_ab (a @ t)) a
     = replicate 4 \<lparr>point = (if hd a = CHR ''b'' then 1 else 0), ip = a\<rparr>"
  by (simp add: digest_points_def le_uint32_md_ab upt_4 numeral_eq_Suc)

lemma server_points_md_ab:
  "a \<noteq> [] \<Longrightarrow> server_points md_ab a n
     = replicate (4 * n) \<lparr>point = (if hd a = CHR ''b'' then 1 else 0), ip = a\<rparr>"
proof (induction n)
  case 0
  then show ?case by (simp add: server_points_def)
next
  case (Suc n)
  have "replicate (4 * Suc n) x = replicate (4 * n) x @ replicate 4 x" for x :: mcs
    by (simp add: replicate_add [symmetric])
  with Suc show ?case
    by (simp add: server_points_Suc digest_points_md_ab)
qed




subsection \<open>The loop of the lookup\<close>

lemma search_state: "snd (search ketama h lowp highp) = ketama"
proof (induction ketama h lowp highp rule: search.induct)
  case (1 ketama h lowp highp)
  show ?case
  proof (cases "loop_body ketama h lowp highp")
    case (Return r)
    then show ?thesis by (simp add: search.simps [of ketama h lowp highp])
  next
    case (Again l' h')
    with "1.IH" show ?thesis by (simp add: search.simps [of ketama h lowp highp])
  qed
qed

lemma loop_body_shrinks:
  assumes a: "loop_body ketama h lowp highp = Again lowp' highp'"
  shows "lowp' \<le> highp' \<and> highp' - lowp' < highp - lowp"
proof -
  let ?m = "c_div (lowp + highp) 2"
  have "2 * ?m \<le> lowp + highp + 1 \<and> lowp + highp - 1 \<le> 2 * ?m"
    by (cases "0 \<le> lowp + highp") (auto simp: c_div_def sgn_if)
  moreover from a
  have "(lowp' = ?m + 1 \<and> highp' = highp \<or> lowp' = lowp \<and> highp' = ?m - 1) \<and> lowp' \<le> highp'"
    by (auto simp: loop_body_def Let_def split: if_splits sum.splits)
  ultimately show ?thesis by auto
qed

lemma search_fuel_enough:
  "nat (highp - lowp) < n \<Longrightarrow> search_fuel n ketama h lowp highp = Some (search ketama h lowp highp)"
proof (induction n arbitrary: lowp highp)
  case 0
  then show ?case by simp
next
  case (Suc n)
  show ?case
  proof (cases "loop_body ketama h lowp highp")
    case (Return r)
    then show ?thesis by (simp add: search.simps [of ketama h lowp highp])
  next
    case (Again l' h')
    from loop_body_shrinks [OF Again] Suc.prems have "nat (h' - l') < n" by auto
    from Suc.IH [OF this] Again show ?thesis
      by (simp add: search.simps [of ketama h lowp highp])
  qed
qed

lemma loop_body_numpoints_0:
  "numpoints ketama = 0 \<Longrightarrow> loop_body ketama h 0 0 = Return (Inr 0)"
  by (simp add: loop_body_def INT_MIN_def INT_MAX_def c_div_def)

lemma get_server_numpoints_0:
  "numpoints ketama = 0 \<Longrightarrow> Ketama_get_server md ketama key = (Inr 0, ketama)"
  by (simp add: Ketama_get_server_def search.simps [of ketama _ 0 0] loop_body_numpoints_0)

lemma loop_body_eq:
  assumes c: "continuum ketama = Some ring"
    and n: "numpoints ketama \<le> int (length ring)" "numpoints ketama < 2 ^ 30"
    and i: "0 \<le> lowp" "lowp \<le> highp" "highp \<le> numpoints ketama"
    and m: "m = (lowp + highp) div 2"
  shows "loop_body ketama h lowp highp =
     (if m = numpoints ketama then Return (Inr 0)
      else if h \<le> point (ring ! nat m) \<and> (if m = 0 then 0 else point (ring ! nat (m - 1))) < h
        then Return (Inr (nat m))
      else if point (ring ! nat m) < h
        then (if highp < m + 1 then Return (Inr 0) else Again (m + 1) highp)
      else (if m - 1 < lowp then Return (Inr 0) else Again lowp (m - 1)))"
proof -
  have s: "\<not> (lowp + highp < INT_MIN \<or> INT_MAX < lowp + highp)"
    using n i by (simp add: INT_MAX_def INT_MIN_def)
  have cd: "c_div (lowp + highp) 2 = m"
    using i m by (simp add: c_div_def sgn_if)
  show ?thesis
  proof (cases "m = numpoints ketama")
    case True
    then show ?thesis using s cd by (simp add: loop_body_def)
  next
    case False
    then have lt: "m < int (length ring)" "0 \<le> m"
      using m i n by auto
    have r: "read_point ketama m = Inr (point (ring ! nat m))"
      using c lt by (simp add: read_point_def)
    have r1: "(if m = 0 then Inr 0 else read_point ketama (m - 1))
        = Inr (if m = 0 then 0 else point (ring ! nat (m - 1)))"
      using c lt by (simp add: read_point_def)
    show ?thesis
      unfolding loop_body_def Let_def cd r r1 using False s by simp
  qed
qed

lemma loop_body_in_range:
  assumes c: "continuum ketama = Some ring"
    and n: "numpoints ketama \<le> int (length ring)" "numpoints ketama < 2 ^ 30"
    and i: "0 \<le> lowp" "lowp \<le> highp" "highp \<le> numpoints ketama"
  shows "loop_body ketama h lowp highp = Return (Inr 0)
       \<or> (\<exists>m. loop_body ketama h lowp highp = Return (Inr (nat m)) \<and> 0 \<le> m \<and> m < numpoints ketama)
       \<or> (\<exists>lowp' highp'. loop_body ketama h lowp highp = Again lowp' highp'
             \<and> 0 \<le> lowp' \<and> lowp' \<le> highp' \<and> highp' \<le> numpoints ketama)"
proof -
  let ?m = "(lowp + highp) div 2"
  have m: "lowp \<le> ?m" "?m \<le> highp"
    using i by auto
  show ?thesis
    unfolding loop_body_eq [OF c n i refl] using m i by auto
qed

lemma search_in_range:
  "continuum ketama = Some ring \<Longrightarrow> numpoints ketama \<le> int (length ring) \<Longrightarrow>
   numpoints ketama < 2 ^ 30 \<Longrightarrow> 0 \<le> lowp \<Longrightarrow> lowp \<le> highp \<Longrightarrow> highp \<le> numpoints ketama \<Longrightarrow>
   \<exists>i. fst (search ketama h lowp highp) = Inr i \<and> (i = 0 \<or> int i < numpoints ketama)"
proof (induction ketama h lowp highp rule: search.induct)
  case (1 ketama h lowp highp)
  from loop_body_in_range [OF "1.prems", of h]
  consider "loop_body ketama h lowp highp = Return (Inr 0)"
    | m where "loop_body ketama h lowp highp = Return (Inr (nat m))" "0 \<le> m" "m < numpoints ketama"
    | lowp' highp' where "loop_body ketama h lowp highp = Again lowp' highp'"
        "0 \<le> lowp'" "lowp' \<le> highp'" "highp' \<le> numpoints ketama"
    by blast
  then show ?case
  proof cases
    case 1
    then show ?thesis by (simp add: search.simps [of ketama h lowp highp])
  next
    case 2
    then show ?thesis by (simp add: search.simps [of ketama h lowp highp])
  next
    case 3
    from "1.IH" [OF 3(1) "1.prems"(1,2,3) 3(2,3,4)] show ?thesis
      using 3(1) by (simp add: search.simps [of ketama h lowp highp])
  qed
qed

lemma first_at_least_None:
  "(\<forall>j < length ring. point (ring ! j) < h) \<Longrightarrow> first_at_least h ring = None"
proof (induction ring)
  case Nil
  show ?case by simp
next
  case (Cons c cs)
  from Cons.prems have "point c < h" by auto
  moreover from Cons.prems have "\<forall>j < length cs. point (cs ! j) < h" by auto
  ultimately show ?case using Cons.IH by simp
qed

lemma first_at_least_Some:
  "j < length ring \<Longrightarrow> h \<le> point (ring ! j) \<Longrightarrow> (\<forall>i < j. point (ring ! i) < h) \<Longrightarrow>
   first_at_least h ring = Some j"
proof (induction ring arbitrary: j)
  case Nil
  then show ?case by simp
next
  case (Cons c cs)
  show ?case
  proof (cases j)
    case 0
    with Cons.prems show ?thesis by simp
  next
    case (Suc j')
    with Cons.prems have "point c < h" by auto
    moreover have "first_at_least h cs = Some j'"
      using Cons.prems Suc by (intro Cons.IH) auto
    ultimately show ?thesis using Suc by simp
  qed
qed

lemma first_at_least_least:
  "first_at_least h ring = Some j \<Longrightarrow>
   j < length ring \<and> h \<le> point (ring ! j) \<and> (\<forall>i < j. point (ring ! i) < h)"
proof (induction ring arbitrary: j)
  case Nil
  then show ?case by simp
next
  case (Cons c cs)
  show ?case
  proof (cases "h \<le> point c")
    case True
    with Cons.prems show ?thesis by simp
  next
    case False
    with Cons.prems obtain j' where j': "first_at_least h cs = Some j'" "j = Suc j'"
      by auto
    from Cons.IH [OF j'(1)] False j'(2) show ?thesis
      by (auto simp: less_Suc_eq_0_disj)
  qed
qed

text \<open>
  With \<open>numpoints\<close> equal to the number of cells, which no function of the file
  establishes, the loop does find the successor in a sorted ring of fewer than
  \<open>2 ^ 30\<close> cells.
\<close>

lemma search_successor:
  "continuum ketama = Some ring \<Longrightarrow> numpoints ketama = int (length ring) \<Longrightarrow>
   numpoints ketama < 2 ^ 30 \<Longrightarrow> sorted (map point ring) \<Longrightarrow>
   0 \<le> lowp \<Longrightarrow> lowp \<le> highp \<Longrightarrow> highp \<le> numpoints ketama \<Longrightarrow>
   (\<forall>j. int j < lowp \<longrightarrow> point (ring ! j) < h) \<Longrightarrow>
   (highp = numpoints ketama \<or> h \<le> point (ring ! nat highp)) \<Longrightarrow>
   fst (search ketama h lowp highp) = Inr (successor_index h ring)"
proof (induction ketama h lowp highp rule: search.induct)
  case (1 ketama h lowp highp)
  note c = "1.prems"(1) and n = "1.prems"(2) and b = "1.prems"(3) and srt = "1.prems"(4)
    and i = "1.prems"(5,6,7) and lo = "1.prems"(8) and hi = "1.prems"(9)
  define m where "m = (lowp + highp) div 2"
  have m: "lowp \<le> m" "m \<le> highp" using i by (auto simp: m_def)
  have le: "numpoints ketama \<le> int (length ring)" using n by simp
  note lb = loop_body_eq [OF c le b i m_def, of h]
  have mono: "point (ring ! j) \<le> point (ring ! k)" if "j \<le> k" "k < length ring" for j k
    using sorted_nth_mono [OF srt, of j k] that by simp
  show ?case
  proof (cases "m = numpoints ketama")
    case True
    with m i have "lowp = numpoints ketama" by (auto simp: m_def)
    with lo n have "\<forall>j < length ring. point (ring ! j) < h" by auto
    then have "successor_index h ring = 0"
      by (simp add: successor_index_def first_at_least_None)
    with True lb show ?thesis
      by (simp add: search.simps [of ketama h lowp highp])
  next
    case False
    with m i n have mn: "0 \<le> m" "nat m < length ring" by auto
    show ?thesis
    proof (cases "h \<le> point (ring ! nat m) \<and> (if m = 0 then 0 else point (ring ! nat (m - 1))) < h")
      case True
      have "\<forall>i < nat m. point (ring ! i) < h"
      proof (intro allI impI)
        fix i assume "i < nat m"
        then have "m \<noteq> 0" "i \<le> nat (m - 1)" "nat (m - 1) < length ring" using mn by auto
        with True mono [of i "nat (m - 1)"] show "point (ring ! i) < h" by auto
      qed
      with True mn have "first_at_least h ring = Some (nat m)"
        by (intro first_at_least_Some) auto
      with True False lb show ?thesis
        by (simp add: search.simps [of ketama h lowp highp] successor_index_def)
    next
      case nomatch: False
      show ?thesis
      proof (cases "point (ring ! nat m) < h")
        case True
        have "\<not> highp < m + 1"
        proof
          assume "highp < m + 1"
          with m have "highp = m" by simp
          with hi False True show False by auto
        qed
        then have again: "loop_body ketama h lowp highp = Again (m + 1) highp"
          using lb False nomatch True by simp
        have lo': "\<forall>j. int j < m + 1 \<longrightarrow> point (ring ! j) < h"
        proof (intro allI impI)
          fix j assume "int j < m + 1"
          then have "j \<le> nat m" by auto
          from mono [OF this mn(2)] True show "point (ring ! j) < h" by auto
        qed
        have "fst (search ketama h (m + 1) highp) = Inr (successor_index h ring)"
          using \<open>\<not> highp < m + 1\<close> mn i
          by (intro "1.IH" [OF again c n b srt _ _ _ lo' hi]) auto
        with again show ?thesis
          by (simp add: search.simps [of ketama h lowp highp])
      next
        case ge: False
        with nomatch have nm: "\<not> (if m = 0 then 0 else point (ring ! nat (m - 1))) < h"
          by auto
        show ?thesis
        proof (cases "m - 1 < lowp")
          case True
          with m have ml: "m = lowp" by simp
          have "m = 0"
          proof (rule ccontr)
            assume "m \<noteq> 0"
            with mn ml have "int (nat (m - 1)) < lowp" by auto
            with lo have "point (ring ! nat (m - 1)) < h" by blast
            with nm \<open>m \<noteq> 0\<close> show False by simp
          qed
          with nm have "h = 0" by (simp add: word_gt_0)
          with mn \<open>m = 0\<close> have "first_at_least h ring = Some 0"
            by (intro first_at_least_Some) auto
          with lb False nomatch ge True show ?thesis
            by (simp add: search.simps [of ketama h lowp highp] successor_index_def)
        next
          case stay: False
          then have again: "loop_body ketama h lowp highp = Again lowp (m - 1)"
            using lb \<open>m \<noteq> numpoints ketama\<close> nomatch ge by simp
          from stay i have "m \<noteq> 0" by auto
          with nm have hi': "m - 1 = numpoints ketama \<or> h \<le> point (ring ! nat (m - 1))"
            by auto
          have "fst (search ketama h lowp (m - 1)) = Inr (successor_index h ring)"
            using stay m i
            by (intro "1.IH" [OF again c n b srt _ _ _ lo hi']) auto
          with again show ?thesis
            by (simp add: search.simps [of ketama h lowp highp])
        qed
      qed
    qed
  qed
qed

lemma get_server_on_counted_ring:
  assumes "continuum ketama = Some ring" and "numpoints ketama = int (length ring)"
    and "numpoints ketama < 2 ^ 30" and "sorted (map point ring)"
  shows "fst (Ketama_get_server md ketama key) = Inr (successor_index (ketama_hashi md key) ring)"
  unfolding Ketama_get_server_def Let_def
  using assms(2) by (intro search_successor [OF assms]) auto

lemma successor_index_smallest:
  assumes "sorted (map point ring)" and "c \<in> set ring" and "h \<le> point c"
  shows "successor_index h ring < length ring
       \<and> h \<le> point (ring ! successor_index h ring)
       \<and> point (ring ! successor_index h ring) \<le> point c"
proof -
  from assms(2) obtain k where k: "k < length ring" "ring ! k = c"
    by (auto simp: in_set_conv_nth)
  have "first_at_least h ring \<noteq> None"
  proof
    assume "first_at_least h ring = None"
    then have "\<forall>j < length ring. point (ring ! j) < h"
      by (induction ring) (auto simp: nth_Cons split: if_splits nat.splits)
    with k assms(3) show False by auto
  qed
  then obtain j where j: "first_at_least h ring = Some j" by auto
  note l = first_at_least_least [OF j]
  have "j \<le> k"
  proof (rule ccontr)
    assume "\<not> j \<le> k"
    with l have "point (ring ! k) < h" by auto
    with k assms(3) show False by auto
  qed
  with sorted_nth_mono [OF assms(1), of j k] k have "point (ring ! j) \<le> point c"
    by simp
  with l j show ?thesis
    by (simp add: successor_index_def)
qed

lemma successor_index_wrap:
  "\<forall>c \<in> set ring. point c < h \<Longrightarrow> successor_index h ring = 0"
  by (simp add: successor_index_def first_at_least_None)

lemma max_pass_1: "loop_body ketama_max 1 0 2147483647 = Again 1073741824 2147483647"
  by (simp add: loop_body_def ketama_max_def read_point_def INT_MIN_def INT_MAX_def c_div_def)

lemma max_pass_2: "loop_body ketama_max 1 1073741824 2147483647 = Return (Inl SignedOverflow)"
  by (simp add: loop_body_def INT_MIN_def INT_MAX_def)

lemma short_pass: "loop_body ketama_short h 0 1 = Return (Inl OutOfBounds)"
  by (simp add: loop_body_def ketama_short_def read_point_def INT_MIN_def INT_MAX_def c_div_def)

section \<open>The claims\<close>

text \<open>
  Claim C1: the ring that construction leaves is sorted by position. It fails on the
  code: the sort of line 217 is commented out, so the cells stay in the order in which
  they were written. For the single server \<^verbatim>\<open>10.0.0.1:11211\<close> of weight 1 and MD5, the
  first two of the 160 cells are the first two words of the digest of
  \<^verbatim>\<open>10.0.0.1:11211-0\<close>, \<open>0x62092476\<close> and \<open>0x0fe39fe2\<close>, in descending order.
\<close>

theorem unsorted_ring:
  "case Ketama_create_continuum md5_10_0_0_1 (add_servers Ketama_new [(''10.0.0.1'', 11211, 1)]) of
     Inl e \<Rightarrow> False
   | Inr ketama \<Rightarrow>
       (case continuum ketama of
          None \<Rightarrow> False
        | Some ring \<Rightarrow>
            length ring = 160
            \<and> point (ring ! 0) = 1644766326 \<and> point (ring ! 1) = 266575842
            \<and> \<not> point (ring ! 0) \<le> point (ring ! 1)
            \<and> \<not> sorted (map point ring))"
proof -
  from one_server_created [of md5_10_0_0_1] obtain ketama where
    c: "Ketama_create_continuum md5_10_0_0_1 (add_servers Ketama_new [(''10.0.0.1'', 11211, 1)]) = Inr ketama"
    by blast
  let ?ring = "server_points md5_10_0_0_1 ''10.0.0.1:11211'' 40"
  from one_server_ring [OF c] have k: "continuum ketama = Some ?ring"
    by simp
  have l: "length ?ring = 160"
    by (simp add: length_server_points)
  have p0: "point (?ring ! 0) = 1644766326"
    by (simp add: server_points_nth digest_points_nth dec_eval le_uint32_def md5_10_0_0_1_def md5_first)
  have p1: "point (?ring ! 1) = 266575842"
    by (simp add: server_points_nth digest_points_nth dec_eval le_uint32_def md5_10_0_0_1_def md5_first)
  have "\<not> sorted (map point ?ring)"
  proof
    assume "sorted (map point ?ring)"
    from sorted_nth_mono [OF this, of 0 1] l have "point (?ring ! 0) \<le> point (?ring ! 1)"
      by simp
    with p0 p1 show False by simp
  qed
  with c k l p0 p1 show ?thesis by simp
qed

text \<open>
  Claim C2: on a sorted ring that is not empty the lookup returns the owner of the
  smallest position that is at least the hash, or of the first cell when there is none.
  It fails on the code. Two servers \<^verbatim>\<open>a:1\<close> and \<^verbatim>\<open>b:1\<close> of weight 1, added in this
  order, with the digest \<open>md_ab\<close>, give a sorted ring of 320 cells: 160 at position 0
  owned by \<^verbatim>\<open>a:1\<close>, then 160 at position 1 owned by \<^verbatim>\<open>b:1\<close>. The key \<^verbatim>\<open>b\<close> hashes
  to 1, and the smallest position that is at least 1 is that of cell 160, owned by
  \<^verbatim>\<open>b:1\<close>. The lookup returns cell 0, at position 0 and owned by \<^verbatim>\<open>a:1\<close>, since
  \<open>numpoints\<close> is 0.
\<close>

theorem lookup_ignores_hash:
  "case Ketama_create_continuum md_ab (add_servers Ketama_new [(''a'', 1, 1), (''b'', 1, 1)]) of
     Inl e \<Rightarrow> False
   | Inr ketama \<Rightarrow>
       (case continuum ketama of
          None \<Rightarrow> False
        | Some ring \<Rightarrow>
            length ring = 320 \<and> sorted (map point ring)
            \<and> ketama_hashi md_ab ''b'' = 1
            \<and> successor_index (ketama_hashi md_ab ''b'') ring = 160
            \<and> point (ring ! 159) = 0 \<and> point (ring ! 160) = 1 \<and> ip (ring ! 160) = ''b:1''
            \<and> fst (Ketama_get_server md_ab ketama ''b'') = Inr 0
            \<and> point (ring ! 0) = 0 \<and> ip (ring ! 0) = ''a:1'')"
proof -
  from two_servers_created [of md_ab] obtain ketama where
    c: "Ketama_create_continuum md_ab (add_servers Ketama_new [(''a'', 1, 1), (''b'', 1, 1)]) = Inr ketama"
    by blast
  let ?ring = "replicate 160 \<lparr>point = 0, ip = ''a:1''\<rparr> @ replicate 160 \<lparr>point = 1, ip = ''b:1''\<rparr>"
  from two_server_ring [OF c] have k: "numpoints ketama = 0" "continuum ketama = Some ?ring"
    by (simp_all add: server_points_md_ab)
  have s: "sorted (map point ?ring)"
    by (simp add: sorted_append)
  have h: "ketama_hashi md_ab ''b'' = 1"
    by (simp add: hashi_le le_uint32_md_ab)
  have "first_at_least 1 ?ring = Some 160"
    by (rule first_at_least_Some) (simp_all add: nth_append)
  then have i: "successor_index 1 ?ring = 160"
    by (simp add: successor_index_def)
  have g: "fst (Ketama_get_server md_ab ketama ''b'') = Inr 0"
    using k(1) by (simp add: get_server_numpoints_0)
  from c k s h i g show ?thesis
    by (simp add: nth_append)
qed

text \<open>
  Claim C3. In every state that \<^verbatim>\<open>Ketama_new\<close>, any sequence of
  \<^verbatim>\<open>Ketama_add_server\<close> calls and one \<^verbatim>\<open>Ketama_create_continuum\<close> call lead to,
  \<open>numpoints\<close> is still 0: construction counts the points in the local \<open>cont\<close> and
  never stores the count. So the first pass of the lookup takes the branch
  \<open>midp == numpoints\<close>, and the lookup returns the cell of index 0 for every key.
\<close>

theorem numpoints_stays_zero:
  assumes "Ketama_create_continuum md (add_servers Ketama_new calls) = Inr ketama"
  shows "numpoints ketama = 0
    \<and> loop_body ketama (ketama_hashi md key) 0 (numpoints ketama) = Return (Inr 0)
    \<and> Ketama_get_server md ketama key = (Inr 0, ketama)"
proof -
  have "numpoints ketama = 0"
    using numpoints_create_continuum [OF assms]
    by (simp add: numpoints_add_servers Ketama_new_def)
  then show ?thesis
    by (simp add: loop_body_numpoints_0 get_server_numpoints_0)
qed

text \<open>
  The hypothesis of C3 holds for the single server \<^verbatim>\<open>10.0.0.1:11211\<close> of weight 1.
\<close>

theorem numpoints_stays_zero_witness:
  "case Ketama_create_continuum md_zero (add_servers Ketama_new [(''10.0.0.1'', 11211, 1)]) of
     Inl e \<Rightarrow> False
   | Inr ketama \<Rightarrow> numpoints ketama = 0 \<and> Ketama_get_server md_zero ketama ''key'' = (Inr 0, ketama)"
proof -
  from one_server_created [of md_zero] obtain ketama where
    c: "Ketama_create_continuum md_zero (add_servers Ketama_new [(''10.0.0.1'', 11211, 1)]) = Inr ketama"
    by blast
  from numpoints_stays_zero [OF c, of "''key''"] c show ?thesis by simp
qed




text \<open>
  Claim C5: construction aborts when there is no server or when the total weight is 0.
  As stated it fails: one server of weight 0 gives a total weight of 0, no assertion
  fails, and construction goes on to divide zero by zero and to convert the NaN to
  \<^verbatim>\<open>unsigned int\<close>.
\<close>

theorem zero_weight_counterexample:
  "memory (Ketama_add_server Ketama_new ''10.0.0.1'' 11211 0) = 0
   \<and> Ketama_create_continuum md_zero (Ketama_add_server Ketama_new ''10.0.0.1'' 11211 0)
       = Inl FloatToUnsignedUndefined
   \<and> Ketama_create_continuum md_zero (Ketama_add_server Ketama_new ''10.0.0.1'' 11211 0)
       \<noteq> Inl AssertionFailed"
  by (simp add: Ketama_create_continuum_def Ketama_add_server_def Ketama_new_def list_add_def hr_0_0_1)

text \<open>
  Claim C5, as amended. Construction on a state with no server fails with the assertion
  of line 168, whatever the total weight is.
\<close>

theorem zero_servers_abort:
  "numservers ketama = 0 \<Longrightarrow> Ketama_create_continuum md ketama = Inl AssertionFailed"
  by (simp add: Ketama_create_continuum_def)

text \<open>
  The state of \<^verbatim>\<open>Ketama_new\<close> has no server.
\<close>

theorem zero_servers_abort_witness:
  "numservers Ketama_new = 0 \<and> Ketama_create_continuum md_zero Ketama_new = Inl AssertionFailed"
  using zero_servers_abort [of Ketama_new md_zero] by (simp add: Ketama_new_def)

text \<open>
  Claim C6. On a ring that is not empty the lookup returns, for every key and so for
  every 32-bit hash, the index of a cell of the ring: it never ends without a result.
  The count \<open>numpoints\<close> that the lookup reads may be any value from 0, which is what
  construction leaves, up to the number of cells; it is below \<open>2 ^ 30\<close>, so that
  \<open>lowp + highp\<close> stays an \<^verbatim>\<open>int\<close>.
\<close>

theorem lookup_returns_a_ring_point:
  assumes "continuum ketama = Some ring" and "ring \<noteq> []"
    and "0 \<le> numpoints ketama" and "numpoints ketama \<le> int (length ring)"
    and "numpoints ketama < 2 ^ 30"
  shows "(\<exists>i. fst (search ketama h 0 (numpoints ketama)) = Inr i \<and> i < length ring)
       \<and> (\<exists>i. fst (Ketama_get_server md ketama key) = Inr i \<and> i < length ring)"
proof -
  have "\<exists>i. fst (search ketama h 0 (numpoints ketama)) = Inr i \<and> i < length ring" for h
  proof -
    from search_in_range [OF assms(1,4,5) order_refl assms(3) order_refl, of h]
    obtain i where "fst (search ketama h 0 (numpoints ketama)) = Inr i"
      and "i = 0 \<or> int i < numpoints ketama"
      by auto
    with assms(2,4) show ?thesis by auto
  qed
  from this [of h] this [of "ketama_hashi md key"] show ?thesis
    by (simp add: Ketama_get_server_def)
qed

text \<open>
  The hypotheses of C6 hold in the state that construction leaves for the single server
  \<^verbatim>\<open>10.0.0.1:11211\<close> of weight 1.
\<close>

theorem lookup_returns_a_ring_point_witness:
  "case Ketama_create_continuum md_zero (add_servers Ketama_new [(''10.0.0.1'', 11211, 1)]) of
     Inl e \<Rightarrow> False
   | Inr ketama \<Rightarrow>
       (case continuum ketama of
          None \<Rightarrow> False
        | Some ring \<Rightarrow>
            ring \<noteq> [] \<and> numpoints ketama = 0
            \<and> (\<exists>i. fst (Ketama_get_server md_zero ketama ''key'') = Inr i \<and> i < length ring))"
proof -
  from one_server_created [of md_zero] obtain ketama where
    c: "Ketama_create_continuum md_zero (add_servers Ketama_new [(''10.0.0.1'', 11211, 1)]) = Inr ketama"
    by blast
  let ?ring = "server_points md_zero ''10.0.0.1:11211'' 40"
  from one_server_ring [OF c] have k: "numpoints ketama = 0" "continuum ketama = Some ?ring"
    by simp_all
  have l: "length ?ring = 160"
    by (simp add: length_server_points)
  then have ne: "?ring \<noteq> []"
    by auto
  have "\<exists>i. fst (Ketama_get_server md_zero ketama ''key'') = Inr i \<and> i < length ?ring"
    using k l by (intro lookup_returns_a_ring_point [OF k(2) ne, THEN conjunct2]) simp_all
  with c k ne show ?thesis by simp
qed

text \<open>
  Claim C7. A ring position is the \<open>g\<close>-th group of four digest bytes read as
  \<open>byte[3]<<24 | byte[2]<<16 | byte[1]<<8 | byte[0]\<close>, that is the little-endian
  number of the group; the hash of a key is the first such word of the key's digest, by
  the same rule; and the inner loop of construction writes the four words of a digest
  in turn.
\<close>

theorem positions_little_endian:
  "unat (continuum_point digest (int g)) =
       unat (digest (g * 4)) + 2 ^ 8 * unat (digest (1 + g * 4))
       + 2 ^ 16 * unat (digest (2 + g * 4)) + 2 ^ 24 * unat (digest (3 + g * 4))
   \<and> ketama_hashi md key = continuum_point (ketama_md5_digest md key) 0
   \<and> h_loop digest a [] 0 0 =
       (map (\<lambda>g. \<lparr>point = continuum_point digest (int g), ip = a\<rparr>) [0, 1, 2, 3], 4)"
proof (intro conjI)
  show "unat (continuum_point digest (int g)) =
       unat (digest (g * 4)) + 2 ^ 8 * unat (digest (1 + g * 4))
       + 2 ^ 16 * unat (digest (2 + g * 4)) + 2 ^ 24 * unat (digest (3 + g * 4))"
    by (simp add: continuum_point_le unat_le_uint32 ac_simps)
  show "ketama_hashi md key = continuum_point (ketama_md5_digest md key) 0"
    using continuum_point_le [of "md key" 0] by (simp add: hashi_le ketama_md5_digest_def)
  show "h_loop digest a [] 0 0 =
       (map (\<lambda>g. \<lparr>point = continuum_point digest (int g), ip = a\<rparr>) [0, 1, 2, 3], 4)"
    using h_loop_closed [of 0 "[]" digest a]
    by (simp add: digest_points_def continuum_point_le upt_4)
qed

text \<open>
  Claim C9. A call of \<^verbatim>\<open>Ketama_get_server\<close> leaves the whole state as it was:
  \<open>numpoints\<close>, \<open>numservers\<close>, \<open>memory\<close>, the server list and every cell of the
  continuum are the same after the call as before it, for every state and every key.
\<close>

theorem lookup_leaves_state: "snd (Ketama_get_server md ketama key) = ketama"
  by (simp add: Ketama_get_server_def search_state)

text \<open>
  Claim C10: the loop of \<^verbatim>\<open>Ketama_get_server\<close> returns for every \<open>numpoints \<ge> 0\<close> and
  every hash, each pass returning at one of its three \<^verbatim>\<open>return\<close>s or shrinking the
  interval. As stated it fails. With \<open>numpoints\<close> equal to \<^verbatim>\<open>INT_MAX\<close> the first pass
  leaves \<open>lowp = 1073741824\<close> and \<open>highp = 2147483647\<close>, and the sum \<open>lowp + highp\<close> of
  the second pass is outside the range of \<^verbatim>\<open>int\<close>. With \<open>numpoints = 1\<close> and no cell
  written the first pass reads cell 0, which is not there. In both runs the pass
  neither reaches a \<^verbatim>\<open>return\<close> nor leaves a shorter interval.
\<close>

theorem lookup_overflow_counterexample:
  "0 \<le> numpoints ketama_max
   \<and> loop_body ketama_max 1 0 2147483647 = Again 1073741824 2147483647
   \<and> loop_body ketama_max 1 1073741824 2147483647 = Return (Inl SignedOverflow)
   \<and> ketama_hashi md_ab ''b'' = 1
   \<and> fst (Ketama_get_server md_ab ketama_max ''b'') = Inl SignedOverflow
   \<and> 0 \<le> numpoints ketama_short
   \<and> loop_body ketama_short 1 0 1 = Return (Inl OutOfBounds)
   \<and> fst (Ketama_get_server md_ab ketama_short ''b'') = Inl OutOfBounds"
proof -
  have h: "ketama_hashi md_ab ''b'' = 1"
    by (simp add: hashi_le le_uint32_md_ab)
  have n: "numpoints ketama_max = 2147483647" "numpoints ketama_short = 1"
    by (simp_all add: ketama_max_def ketama_short_def)
  have "search ketama_max 1 0 2147483647 = (Inl SignedOverflow, ketama_max)"
    by (simp add: search.simps [of ketama_max 1 0 2147483647]
        search.simps [of ketama_max 1 1073741824 2147483647] max_pass_1 max_pass_2)
  moreover have "search ketama_short 1 0 1 = (Inl OutOfBounds, ketama_short)"
    by (simp add: search.simps [of ketama_short 1 0 1] short_pass)
  ultimately show ?thesis
    using h n by (simp add: Ketama_get_server_def max_pass_1 max_pass_2 short_pass)
qed

text \<open>
  Claim C10, as amended. Let \<open>numpoints\<close> be at least 0, at most the number of cells of
  the continuum and below \<open>2 ^ 30\<close>. Then a pass of the loop from an interval with
  \<open>0 \<le> lowp \<le> highp \<le> numpoints\<close> returns 0, or returns an index \<open>midp\<close> below
  \<open>numpoints\<close>, or leaves a strictly shorter interval of the same kind. So the loop
  started at \<open>0\<close> and \<open>numpoints\<close> returns an index within \<open>numpoints + 1\<close> passes for
  every hash, and the lookup returns an index for every key, with the state as it
  was.
\<close>

theorem lookup_terminates:
  assumes "continuum ketama = Some ring" and "0 \<le> numpoints ketama"
    and "numpoints ketama \<le> int (length ring)" and "numpoints ketama < 2 ^ 30"
  shows "(0 \<le> lowp \<and> lowp \<le> highp \<and> highp \<le> numpoints ketama \<longrightarrow>
            loop_body ketama h lowp highp = Return (Inr 0)
          \<or> (\<exists>midp. loop_body ketama h lowp highp = Return (Inr (nat midp))
                \<and> 0 \<le> midp \<and> midp < numpoints ketama)
          \<or> (\<exists>lowp' highp'. loop_body ketama h lowp highp = Again lowp' highp'
                \<and> 0 \<le> lowp' \<and> lowp' \<le> highp' \<and> highp' \<le> numpoints ketama
                \<and> highp' - lowp' < highp - lowp))
       \<and> (\<exists>i. search_fuel (nat (numpoints ketama) + 1) ketama h 0 (numpoints ketama)
                 = Some (Inr i, ketama))
       \<and> (\<exists>i. search_fuel (nat (numpoints ketama) + 1) ketama (ketama_hashi md key) 0
                 (numpoints ketama) = Some (Inr i, ketama)
              \<and> Ketama_get_server md ketama key = (Inr i, ketama))"
proof (intro conjI impI)
  assume r: "0 \<le> lowp \<and> lowp \<le> highp \<and> highp \<le> numpoints ketama"
  then have r': "0 \<le> lowp" "lowp \<le> highp" "highp \<le> numpoints ketama" by auto
  from loop_body_in_range [OF assms(1,3,4) r', of h] loop_body_shrinks [of ketama h lowp highp]
  show "loop_body ketama h lowp highp = Return (Inr 0)
          \<or> (\<exists>midp. loop_body ketama h lowp highp = Return (Inr (nat midp))
                \<and> 0 \<le> midp \<and> midp < numpoints ketama)
          \<or> (\<exists>lowp' highp'. loop_body ketama h lowp highp = Again lowp' highp'
                \<and> 0 \<le> lowp' \<and> lowp' \<le> highp' \<and> highp' \<le> numpoints ketama
                \<and> highp' - lowp' < highp - lowp)"
    by auto
next
  have s: "\<exists>i. search_fuel (nat (numpoints ketama) + 1) ketama h 0 (numpoints ketama)
                 = Some (Inr i, ketama)
              \<and> search ketama h 0 (numpoints ketama) = (Inr i, ketama)" for h
  proof -
    from search_in_range [OF assms(1,3,4) order_refl assms(2) order_refl, of h]
    obtain i where "fst (search ketama h 0 (numpoints ketama)) = Inr i"
      by auto
    with search_state [of ketama h 0 "numpoints ketama"]
    have "search ketama h 0 (numpoints ketama) = (Inr i, ketama)"
      by (cases "search ketama h 0 (numpoints ketama)") simp
    moreover have "search_fuel (nat (numpoints ketama) + 1) ketama h 0 (numpoints ketama)
        = Some (search ketama h 0 (numpoints ketama))"
      by (rule search_fuel_enough) simp
    ultimately show ?thesis by simp
  qed
  from s [of h]
  show "\<exists>i. search_fuel (nat (numpoints ketama) + 1) ketama h 0 (numpoints ketama)
                 = Some (Inr i, ketama)"
    by blast
  from s [of "ketama_hashi md key"]
  show "\<exists>i. search_fuel (nat (numpoints ketama) + 1) ketama (ketama_hashi md key) 0
                 (numpoints ketama) = Some (Inr i, ketama)
              \<and> Ketama_get_server md ketama key = (Inr i, ketama)"
    by (simp add: Ketama_get_server_def)
qed

text \<open>
  The hypotheses of the amended C10 hold for a state of two cells with \<open>numpoints = 2\<close>:
  the pass from \<open>0\<close> and \<open>2\<close> at hash 5 leaves the interval from \<open>0\<close> to \<open>0\<close>, and the
  lookup returns an index.
\<close>

theorem lookup_terminates_witness:
  "continuum ketama_two = Some [\<lparr>point = 10, ip = ''a:1''\<rparr>, \<lparr>point = 20, ip = ''a:1''\<rparr>]
   \<and> numpoints ketama_two = 2
   \<and> loop_body ketama_two 5 0 2 = Again 0 0
   \<and> (\<exists>i. search_fuel 3 ketama_two 5 0 2 = Some (Inr i, ketama_two))
   \<and> (\<exists>i. Ketama_get_server md_ab ketama_two ''b'' = (Inr i, ketama_two))"
proof -
  have c: "continuum ketama_two = Some [\<lparr>point = 10, ip = ''a:1''\<rparr>, \<lparr>point = 20, ip = ''a:1''\<rparr>]"
    and n: "numpoints ketama_two = 2"
    by (simp_all add: ketama_two_def)
  have p: "loop_body ketama_two 5 0 2 = Again 0 0"
    by (simp add: loop_body_def ketama_two_def read_point_def INT_MIN_def INT_MAX_def c_div_def)
  have l: "0 \<le> numpoints ketama_two"
    "numpoints ketama_two \<le> int (length [\<lparr>point = 10, ip = ''a:1''\<rparr>, \<lparr>point = 20, ip = ''a:1''\<rparr>])"
    "numpoints ketama_two < 2 ^ 30"
    by (simp_all add: n)
  have f: "nat (numpoints ketama_two) + 1 = 3" "nat 2 + 1 = (3 :: nat)"
    by (simp_all add: n)
  from lookup_terminates [OF c l, of 0 2 5 md_ab "''b''", unfolded f n]
  have "(\<exists>i. search_fuel 3 ketama_two 5 0 2 = Some (Inr i, ketama_two))
      \<and> (\<exists>i. Ketama_get_server md_ab ketama_two ''b'' = (Inr i, ketama_two))"
    by blast
  with c n p show ?thesis by (simp only: simp_thms)
qed

end
